theory Spec2Isabelle
  imports Main "HOL-Library.Word" "HOL-Library.Product_Lexorder" "HOL-Library.Multiset"
begin

unbundle bit_operations_syntax

section \<open>Link annotations (LinkSpec.ts)\<close>

text \<open>
  A \<^verbatim>\<open>LinkSpec\<close> is the interface \<^verbatim>\<open>{ url: string; start: number; end: number }\<close>.
  JavaScript strings are sequences of UTF-16 code units; offsets are integers.
  The field \<^verbatim>\<open>end\<close> is written \<open>end'\<close>, since \<^verbatim>\<open>end\<close> is reserved.
\<close>

type_synonym code_unit = "16 word"
type_synonym jsstring = "code_unit list"

record LinkSpec =
  url :: jsstring
  start :: int
  end' :: int

subsection \<open>The comparator and the sort\<close>

text \<open>
  The comparator \<^verbatim>\<open>c\<close> of \<^verbatim>\<open>pruneOverlaps\<close>, with its four tests in the order of the source.
\<close>

definition c :: "LinkSpec \<Rightarrow> LinkSpec \<Rightarrow> int" where
  "c a b =
     (if start a < start b then - 1
      else if start a > start b then 1
      else if end' a < end' b then 1
      else if end' a > end' b then - 1
      else 0)"

text \<open>
  \<^verbatim>\<open>links.sort(c)\<close>: \<^verbatim>\<open>Array.prototype.sort\<close> is stable, and \<^verbatim>\<open>c\<close> is a consistent
  comparator, so the sorted array is determined by the input. It is computed here by
  stable insertion: an element goes in front of the first one it does not sort after.
\<close>

fun insort_c :: "LinkSpec \<Rightarrow> LinkSpec list \<Rightarrow> LinkSpec list" where
  "insort_c x [] = [x]"
| "insort_c x (y # ys) = (if c x y \<le> 0 then x # y # ys else y # insort_c x ys)"

definition sort_c :: "LinkSpec list \<Rightarrow> LinkSpec list" where
  "sort_c links = foldr insort_c links []"

subsection \<open>The sweep\<close>

text \<open>
  \<^verbatim>\<open>links.splice(remove, 1)\<close> deletes the element at index \<^verbatim>\<open>remove\<close>.
\<close>

definition splice1 :: "'a list \<Rightarrow> nat \<Rightarrow> 'a list" where
  "splice1 links r = take r links @ drop (Suc r) links"

text \<open>
  The state of the \<^verbatim>\<open>while\<close> loop is the array, \<^verbatim>\<open>len\<close> and \<^verbatim>\<open>i\<close>. The loop runs while
  \<^verbatim>\<open>i < len - 1\<close>; on naturals this is written \<open>i + 1 < len\<close>, which also is false for
  \<open>len = 0\<close>, as \<^verbatim>\<open>0 < -1\<close> is.
\<close>

type_synonym sweep_state = "LinkSpec list \<times> nat \<times> nat"

definition sweep_cond :: "sweep_state \<Rightarrow> bool" where
  "sweep_cond s = (case s of (links, len, i) \<Rightarrow> i + 1 < len)"

text \<open>
  The variable \<^verbatim>\<open>remove\<close> starts at \<^verbatim>\<open>-1\<close>, which is \<open>None\<close> here.
\<close>

definition choose_remove :: "LinkSpec \<Rightarrow> LinkSpec \<Rightarrow> nat \<Rightarrow> nat option" where
  "choose_remove a b i =
     (if end' b \<le> end' a then Some (i + 1)
      else if end' a - start a > end' b - start b then Some (i + 1)
      else if end' a - start a < end' b - start b then Some i
      else None)"

text \<open>
  One iteration of the loop body, entered with \<^verbatim>\<open>i < len - 1\<close>. The variable \<^verbatim>\<open>len\<close>
  starts as \<^verbatim>\<open>links.length\<close> and is decreased with every splice, so both reads are in
  range.
\<close>

definition sweep_body :: "sweep_state \<Rightarrow> sweep_state" where
  "sweep_body s =
     (case s of (links, len, i) \<Rightarrow>
        let a = links ! i; b = links ! (i + 1) in
        if start a \<le> start b \<and> end' a > start b then
          (case choose_remove a b i of
             Some r \<Rightarrow> (splice1 links r, len - 1, i)
           | None \<Rightarrow> (links, len, i + 1))
        else (links, len, i + 1))"

function sweep :: "sweep_state \<Rightarrow> sweep_state" where
  "sweep s = (if sweep_cond s then sweep (sweep_body s) else s)"
  by pat_completeness auto
termination
  by (relation "measure (\<lambda>(links, len, i). 2 * len - i)")
     (auto simp: sweep_cond_def sweep_body_def Let_def split: option.splits)

declare sweep.simps [simp del]

definition pruneOverlaps :: "LinkSpec list \<Rightarrow> LinkSpec list" where
  "pruneOverlaps links = fst (sweep (sort_c links, length links, 0))"

text \<open>The same loop with a bound on the number of iterations: \<open>None\<close> when the bound is too small.\<close>

fun sweep_fuel :: "nat \<Rightarrow> sweep_state \<Rightarrow> sweep_state option" where
  "sweep_fuel 0 s = (if sweep_cond s then None else Some s)"
| "sweep_fuel (Suc n) s = (if sweep_cond s then sweep_fuel n (sweep_body s) else Some s)"

subsection \<open>The resolver as the specification words it\<close>

text \<open>
  Sort by \<^verbatim>\<open>start\<close> ascending and, for equal \<^verbatim>\<open>start\<close>, by \<^verbatim>\<open>end\<close> descending; then sweep
  over adjacent pairs: of a conflicting pair the contained or the strictly shorter
  annotation is removed and the same position is examined again, and nothing is removed
  when the two have equal length and neither contains the other.
\<close>

definition sort_key_spec :: "LinkSpec \<Rightarrow> int \<times> int" where
  "sort_key_spec l = (start l, - end' l)"

fun resolve_spec :: "LinkSpec list \<Rightarrow> LinkSpec list" where
  "resolve_spec (a # b # rest) =
     (if start a \<le> start b \<and> end' a > start b then
        (if end' b \<le> end' a \<or> end' a - start a > end' b - start b then resolve_spec (a # rest)
         else if end' a - start a < end' b - start b then resolve_spec (b # rest)
         else a # resolve_spec (b # rest))
      else a # resolve_spec (b # rest))"
| "resolve_spec links = links"

text \<open>
  Two annotations are tied when the first starts no later than the second, they
  intersect, the second is not contained in the first, and they are equally long: the
  pair of which the sweep removes neither.
\<close>

definition tied :: "LinkSpec \<Rightarrow> LinkSpec \<Rightarrow> bool" where
  "tied a b =
     (start a \<le> start b \<and> end' a > start b \<and> end' a < end' b \<and>
      end' a - start a = end' b - start b)"

section \<open>Diagnostics (log.ts)\<close>

text \<open>
  \<^verbatim>\<open>log.ts\<close> keeps one module variable, the handler \<^verbatim>\<open>logErrorF\<close>, unset at first.
  \<^verbatim>\<open>logError\<close> hands its message to the handler when there is one and does nothing
  otherwise. The state records whether a handler is installed and the messages it has
  received, oldest first.
\<close>

record log_state =
  handler_set :: bool
  delivered :: "string list"

definition setLogError :: "log_state \<Rightarrow> log_state" where
  "setLogError st = st\<lparr>handler_set := True\<rparr>"

definition logError :: "log_state \<Rightarrow> string \<Rightarrow> log_state" where
  "logError st text = (if handler_set st then st\<lparr>delivered := delivered st @ [text]\<rparr> else st)"

section \<open>Strings\<close>

text \<open>A string literal of the source, as code units.\<close>

definition js :: "string \<Rightarrow> jsstring" where
  "js s = map of_char s"

text \<open>\<^verbatim>\<open>s.indexOf(u)\<close> for a one-unit string \<^verbatim>\<open>u\<close>: the first position of \<open>u\<close>, or \<open>-1\<close>.\<close>

fun indexOf :: "jsstring \<Rightarrow> code_unit \<Rightarrow> int" where
  "indexOf [] u = - 1"
| "indexOf (x # xs) u =
     (if x = u then 0 else (let r = indexOf xs u in if r = - 1 then - 1 else r + 1))"

text \<open>\<^verbatim>\<open>s.charAt(i)\<close> is the empty string when \<open>i\<close> is out of range.\<close>

definition charAt :: "jsstring \<Rightarrow> int \<Rightarrow> jsstring" where
  "charAt s i = (if 0 \<le> i \<and> i < int (length s) then [s ! nat i] else [])"

text \<open>
  Letter case and collation belong to the platform, not to the repository. The source
  uses \<^verbatim>\<open>a.localeCompare(b, undefined, { sensitivity: 'accent' }) === 0\<close>, the same test
  with \<^verbatim>\<open>{ sensitivity: 'case' }\<close>, and \<^verbatim>\<open>toLowerCase\<close>. They are parameters of the model:
  a platform gives the two relations ``rated equal'' and the lower-casing function.
\<close>

record platform =
  equal_accent :: "jsstring \<Rightarrow> jsstring \<Rightarrow> bool"
  equal_case :: "jsstring \<Rightarrow> jsstring \<Rightarrow> bool"
  toLowerCase :: "jsstring \<Rightarrow> jsstring"

text \<open>
  A platform for the examples; no general statement below depends on it. It follows the
  platform of an English locale on the printable ASCII characters and their fullwidth
  forms (U+FF01 to U+FF5E): at sensitivity \<^verbatim>\<open>'accent'\<close> neither letter case nor width
  makes a difference, at sensitivity \<^verbatim>\<open>'case'\<close> letter case does and width does not, and
  \<^verbatim>\<open>toLowerCase\<close> lowers the letters of either width.
\<close>

definition fold_width :: "code_unit \<Rightarrow> code_unit" where
  "fold_width u = (if 0xFF01 \<le> u \<and> u \<le> 0xFF5E then u - 0xFEE0 else u)"

definition fold_case :: "code_unit \<Rightarrow> code_unit" where
  "fold_case u = (if 0x41 \<le> u \<and> u \<le> 0x5A then u + 0x20 else u)"

definition lower_unit :: "code_unit \<Rightarrow> code_unit" where
  "lower_unit u =
     (if (0x41 \<le> u \<and> u \<le> 0x5A) \<or> (0xFF21 \<le> u \<and> u \<le> 0xFF3A) then u + 0x20 else u)"

definition sample_platform :: platform where
  "sample_platform =
     \<lparr>equal_accent = (\<lambda>a b. map (\<lambda>u. fold_case (fold_width u)) a =
                              map (\<lambda>u. fold_case (fold_width u)) b),
      equal_case = (\<lambda>a b. map fold_width a = map fold_width b),
      toLowerCase = map lower_unit\<rparr>"

section \<open>Patterns and filters\<close>

text \<open>
  The regular expressions \<^verbatim>\<open>AUTOLINK_WEB_URL\<close> and \<^verbatim>\<open>AUTOLINK_EMAIL_ADDRESS\<close> are defined in
  \<^verbatim>\<open>patterns.ts\<close>, which is not among the sources; they are parameters. Such a pattern
  gives, for a text, the finite sequence of its matches from left to right, which the
  loop \<^verbatim>\<open>while ((m = pattern.exec(s)) != null)\<close> of \<^verbatim>\<open>gatherLinks\<close> walks through; a match
  carries \<^verbatim>\<open>m[0]\<close> and \<^verbatim>\<open>m.index\<close>.
\<close>

record rmatch =
  matched :: jsstring
  index :: nat

type_synonym pattern = "jsstring \<Rightarrow> rmatch list"

text \<open>
  \<^verbatim>\<open>addLinks\<close> takes the caller's \<^verbatim>\<open>RegExp\<close>, of which nothing is known.
  \<^verbatim>\<open>pattern.exec(s)\<close> returns a match or \<^verbatim>\<open>null\<close>, and reads and writes the state of the
  pattern (\<^verbatim>\<open>lastIndex\<close>): such a pattern is a function from its state and the text to the
  outcome and the new state.
\<close>

type_synonym 'r regexp_exec = "'r \<Rightarrow> jsstring \<Rightarrow> rmatch option \<times> 'r"

type_synonym MatchFilter = "jsstring \<Rightarrow> int \<Rightarrow> int \<Rightarrow> bool"

type_synonym TransformFilter = "rmatch \<Rightarrow> jsstring \<Rightarrow> jsstring"

definition WEB_URLS :: int where
  "WEB_URLS = 0x01"

definition EMAIL_ADDRESSES :: int where
  "EMAIL_ADDRESSES = 0x02"

text \<open>The constant \<^verbatim>\<open>ALL\<close> of the source; the name \<^verbatim>\<open>ALL\<close> is reserved.\<close>

definition ALL_KINDS :: int where
  "ALL_KINDS = WEB_URLS OR EMAIL_ADDRESSES"

definition sUrlMatchFilter :: MatchFilter where
  "sUrlMatchFilter s sta en =
     (if sta = 0 then True
      else if charAt s (sta - 1) = js ''@'' then False
      else True)"

section \<open>The orchestrator (linkify.ts)\<close>

definition containsUnsupportedCharacters :: "log_state \<Rightarrow> jsstring \<Rightarrow> bool \<times> log_state" where
  "containsUnsupportedCharacters st text =
     (if indexOf text 0x202C \<noteq> - 1 then
        (True, logError st ''Unsupported character for applying links: u202C'')
      else if indexOf text 0x202D \<noteq> - 1 then
        (True, logError st ''Unsupported character for applying links: u202D'')
      else if indexOf text 0x202E \<noteq> - 1 then
        (True, logError st ''Unsupported character for applying links: u202E'')
      else (False, st))"

text \<open>
  The \<^verbatim>\<open>for\<close> loop of \<^verbatim>\<open>makeUrl\<close> over the prefixes still to be tried; it returns
  \<^verbatim>\<open>hasPrefix\<close> and \<^verbatim>\<open>url\<close>. The variable \<^verbatim>\<open>url\<close> is written \<open>u\<close>.
\<close>

fun scan_prefixes :: "platform \<Rightarrow> jsstring \<Rightarrow> jsstring list \<Rightarrow> bool \<times> jsstring" where
  "scan_prefixes P u [] = (False, u)"
| "scan_prefixes P u (p # ps) =
     (if length u < length p then scan_prefixes P u ps
      else
        let urlPrefixRange = take (length p) u in
        if equal_accent P urlPrefixRange p then
          (True, if \<not> equal_case P urlPrefixRange p then p @ drop (length p) u else u)
        else scan_prefixes P u ps)"

text \<open>
  In \<^verbatim>\<open>makeUrl\<close> the parameter \<^verbatim>\<open>filter\<close> is written \<open>filter0\<close>; an absent \<^verbatim>\<open>filter\<close> is
  \<open>None\<close>.
\<close>

definition makeUrl ::
  "platform \<Rightarrow> jsstring \<Rightarrow> jsstring list \<Rightarrow> rmatch \<Rightarrow> TransformFilter option \<Rightarrow> jsstring" where
  "makeUrl P u prefixes matcher filter0 =
     (let url1 = (case filter0 of Some f \<Rightarrow> f matcher u | None \<Rightarrow> u);
          r = scan_prefixes P url1 prefixes
      in if \<not> fst r \<and> length prefixes > 0 then prefixes ! 0 @ snd r else snd r)"

text \<open>The loop of \<^verbatim>\<open>gatherLinks\<close> over the matches still to come.\<close>

fun gather_loop ::
  "platform \<Rightarrow> jsstring \<Rightarrow> jsstring list \<Rightarrow> MatchFilter option \<Rightarrow> TransformFilter option \<Rightarrow>
   rmatch list \<Rightarrow> LinkSpec list \<Rightarrow> LinkSpec list" where
  "gather_loop P s schemes matchFilter transformFilter [] links = links"
| "gather_loop P s schemes matchFilter transformFilter (m # ms) links =
     (let sta = int (index m); en = sta + int (length (matched m)) in
      if (case matchFilter of None \<Rightarrow> True | Some f \<Rightarrow> f s sta en) then
        gather_loop P s schemes matchFilter transformFilter ms
          (links @
           [\<lparr>url = makeUrl P (matched m) schemes m transformFilter, start = sta, end' = en\<rparr>])
      else gather_loop P s schemes matchFilter transformFilter ms links)"

definition gatherLinks ::
  "platform \<Rightarrow> LinkSpec list \<Rightarrow> jsstring \<Rightarrow> pattern \<Rightarrow> jsstring list \<Rightarrow>
   MatchFilter option \<Rightarrow> TransformFilter option \<Rightarrow> LinkSpec list" where
  "gatherLinks P links s pat schemes matchFilter transformFilter =
     gather_loop P s schemes matchFilter transformFilter (pat s) links"

text \<open>
  \<^verbatim>\<open>addAutoLinks\<close> returns the array or \<^verbatim>\<open>false\<close>, which is \<open>None\<close> here; an omitted
  \<^verbatim>\<open>mask\<close> is \<open>None\<close>. The platform and the two patterns come first, the Diagnostics state
  is passed through.
  The text is a string, so the test \<^verbatim>\<open>text != null\<close> holds and is left out; the same goes for
  \<^verbatim>\<open>spannable != null\<close> in \<^verbatim>\<open>addLinks\<close>.
\<close>

definition addAutoLinks ::
  "platform \<Rightarrow> pattern \<Rightarrow> pattern \<Rightarrow> log_state \<Rightarrow> jsstring \<Rightarrow> int option \<Rightarrow>
   LinkSpec list option \<times> log_state" where
  "addAutoLinks P AUTOLINK_WEB_URL AUTOLINK_EMAIL_ADDRESS st text mask0 =
     (let mask = (case mask0 of None \<Rightarrow> ALL_KINDS | Some m \<Rightarrow> m);
          chk = containsUnsupportedCharacters st text
      in if fst chk then (None, snd chk)
         else if mask = 0 then (None, snd chk)
         else
           let links0 = [];
               links1 =
                 (if mask AND WEB_URLS \<noteq> 0 then
                    gatherLinks P links0 text AUTOLINK_WEB_URL
                      [js ''http://'', js ''https://'', js ''rtsp://'']
                      (Some sUrlMatchFilter) None
                  else links0);
               links2 =
                 (if mask AND EMAIL_ADDRESSES \<noteq> 0 then
                    gatherLinks P links1 text AUTOLINK_EMAIL_ADDRESS [js ''mailto:''] None None
                  else links1);
               links3 = pruneOverlaps links2
           in if length links3 = 0 then (None, snd chk) else (Some links3, snd chk))"

text \<open>
  The array that \<^verbatim>\<open>addAutoLinks\<close> hands to \<^verbatim>\<open>pruneOverlaps\<close> for a non-zero mask: the
  web matches, then the email matches.
\<close>

definition gathered ::
  "platform \<Rightarrow> pattern \<Rightarrow> pattern \<Rightarrow> jsstring \<Rightarrow> int \<Rightarrow> LinkSpec list" where
  "gathered P AUTOLINK_WEB_URL AUTOLINK_EMAIL_ADDRESS text m =
     (let links1 =
            (if m AND WEB_URLS \<noteq> 0 then
               gatherLinks P [] text AUTOLINK_WEB_URL
                 [js ''http://'', js ''https://'', js ''rtsp://'']
                 (Some sUrlMatchFilter) None
             else [])
      in if m AND EMAIL_ADDRESSES \<noteq> 0 then
           gatherLinks P links1 text AUTOLINK_EMAIL_ADDRESS [js ''mailto:''] None None
         else links1)"

text \<open>
  The loop \<^verbatim>\<open>while ((m = pattern.exec(spannable)) != null)\<close> of \<^verbatim>\<open>addLinks\<close>. It ends when
  \<^verbatim>\<open>exec\<close> returns \<^verbatim>\<open>null\<close>, which not every pattern does (one without the \<^verbatim>\<open>g\<close> flag
  returns its first match again and again). The loop is a partial function: \<open>None\<close> is a
  loop that does not end, \<open>Some\<close> holds the array and the state of the pattern at the end.
\<close>

partial_function (option) addLinks_loop ::
  "platform \<Rightarrow> jsstring \<Rightarrow> jsstring list \<Rightarrow> MatchFilter option \<Rightarrow> TransformFilter option \<Rightarrow>
   'r regexp_exec \<Rightarrow> 'r \<Rightarrow> LinkSpec list \<Rightarrow> (LinkSpec list \<times> 'r) option" where
  "addLinks_loop plat spannable schemesCopy matchFilter transformFilter ex r links =
     (case ex r spannable of
        (None, r') \<Rightarrow> Some (links, r')
      | (Some m, r') \<Rightarrow>
          (let sta = int (index m); en = int (index m) + int (length (matched m));
               allowed = (case matchFilter of None \<Rightarrow> True | Some f \<Rightarrow> f spannable sta en)
           in if allowed then
                addLinks_loop plat spannable schemesCopy matchFilter transformFilter ex r'
                  (links @ [\<lparr>url = makeUrl plat (matched m) schemesCopy m transformFilter,
                             start = sta, end' = en\<rparr>])
              else addLinks_loop plat spannable schemesCopy matchFilter transformFilter ex r' links))"

text \<open>
  In \<^verbatim>\<open>addLinks\<close> an absent \<^verbatim>\<open>defaultScheme\<close>, an absent \<^verbatim>\<open>schemes\<close> and an absent entry
  of \<^verbatim>\<open>schemes\<close> are \<open>None\<close>. The pattern is its \<^verbatim>\<open>exec\<close> and its state. \<^verbatim>\<open>addLinks\<close> returns
  \<^verbatim>\<open>false\<close> (\<open>None\<close>) or the array, together with the Diagnostics state and the state of
  the pattern; the outer \<open>None\<close> is a call that does not return.
\<close>

definition addLinks ::
  "platform \<Rightarrow> log_state \<Rightarrow> jsstring \<Rightarrow> 'r regexp_exec \<Rightarrow> 'r \<Rightarrow> jsstring option \<Rightarrow>
   jsstring option list option \<Rightarrow> MatchFilter option \<Rightarrow> TransformFilter option \<Rightarrow>
   (LinkSpec list option \<times> log_state \<times> 'r) option" where
  "addLinks P st spannable ex r defaultScheme schemes matchFilter transformFilter =
     (let chk = containsUnsupportedCharacters st spannable
      in if fst chk then Some (None, snd chk, r)
         else
           let defaultScheme1 = (case defaultScheme of None \<Rightarrow> [] | Some d \<Rightarrow> d);
               schemes1 =
                 (case schemes of None \<Rightarrow> [] | Some ss \<Rightarrow> if length ss < 1 then [] else ss);
               schemesCopy =
                 [toLowerCase P defaultScheme1] @
                 map (\<lambda>scheme. case scheme of None \<Rightarrow> [] | Some x \<Rightarrow> toLowerCase P x) schemes1
           in case addLinks_loop P spannable schemesCopy matchFilter transformFilter ex r [] of
                None \<Rightarrow> None
              | Some (links, r') \<Rightarrow> Some (Some links, snd chk, r'))"

text \<open>
  The matches that successive calls of \<^verbatim>\<open>exec\<close> return before the first \<^verbatim>\<open>null\<close>, and the
  state of the pattern after it, when the \<^verbatim>\<open>null\<close> comes within \<open>n\<close> calls.
\<close>

fun exec_matches :: "nat \<Rightarrow> 'r regexp_exec \<Rightarrow> 'r \<Rightarrow> jsstring \<Rightarrow> (rmatch list \<times> 'r) option" where
  "exec_matches 0 ex r s = None"
| "exec_matches (Suc n) ex r s =
     (case ex r s of
        (None, r') \<Rightarrow> Some ([], r')
      | (Some m, r') \<Rightarrow>
          (case exec_matches n ex r' s of
             None \<Rightarrow> None
           | Some (ms, r'') \<Rightarrow> Some (m # ms, r'')))"


section \<open>The sort and the sweep against their description\<close>

lemma c_le_iff: "c a b \<le> 0 \<longleftrightarrow> sort_key_spec a \<le> sort_key_spec b"
  by (auto simp: c_def sort_key_spec_def)

lemma insort_c_eq: "insort_c x ys = insort_key sort_key_spec x ys"
  by (induction ys) (simp_all add: c_le_iff)

lemma sort_c_eq: "sort_c links = sort_key sort_key_spec links"
  by (induction links) (simp_all add: sort_c_def insort_c_eq sort_key_def)

lemma drop_two: "i + 1 < length xs \<Longrightarrow> drop i xs = xs ! i # xs ! (i + 1) # drop (i + 2) xs"
  by (metis Cons_nth_drop_Suc Suc_eq_plus1 add_2_eq_Suc' add_lessD1)

lemma resolve_spec_short: "length xs \<le> 1 \<Longrightarrow> resolve_spec xs = xs"
  by (cases xs rule: resolve_spec.cases) auto

lemma sweep_resolve:
  "snd s = (length (fst s), i) \<Longrightarrow>
   fst (sweep s) = take i (fst s) @ resolve_spec (drop i (fst s))"
proof (induction s arbitrary: i rule: sweep.induct)
  case (1 s)
  obtain links where s: "s = (links, length links, i)"
    using "1.prems" by (cases s) auto
  show ?case
  proof (cases "sweep_cond s")
    case False
    then have "length (drop i links) \<le> 1" by (simp add: sweep_cond_def s)
    then have "resolve_spec (drop i links) = drop i links"
      by (rule resolve_spec_short)
    moreover have "sweep s = s" using False by (simp add: sweep.simps)
    ultimately show ?thesis by (simp add: s)
  next
    case True
    then have lt: "i + 1 < length links" by (simp add: sweep_cond_def s)
    define a where "a = links ! i"
    define b where "b = links ! (i + 1)"
    define rest where "rest = drop (i + 2) links"
    have d: "drop i links = a # b # rest"
      unfolding a_def b_def rest_def using lt by (rule drop_two)
    have d1: "drop (i + 1) links = b # rest"
      unfolding b_def rest_def using lt by (metis Cons_nth_drop_Suc Suc_eq_plus1 add_2_eq_Suc')
    have t1: "take (i + 1) links = take i links @ [a]"
      unfolding a_def using lt by (simp add: take_Suc_conv_app_nth)
    have sw: "sweep s = sweep (sweep_body s)" using True by (simp add: sweep.simps)
    have body: "sweep_body s =
      (if start a \<le> start b \<and> end' a > start b then
          (case choose_remove a b i of
             Some r \<Rightarrow> (splice1 links r, length links - 1, i)
           | None \<Rightarrow> (links, length links, i + 1))
        else (links, length links, i + 1))"
      by (simp add: sweep_body_def s Let_def a_def b_def)
    note IH = "1.IH"[OF True]
    have adv: "fst (sweep s) = take i links @ a # resolve_spec (b # rest)"
      if "sweep_body s = (links, length links, i + 1)"
    proof -
      have "fst (sweep (sweep_body s)) = take (i + 1) links @ resolve_spec (drop (i + 1) links)"
        using IH[of "i + 1"] by (simp add: that)
      then show ?thesis unfolding sw d1 t1 by simp
    qed
    have rem: "fst (sweep s) = take i links @ resolve_spec (drop i (splice1 links r))"
      if "sweep_body s = (splice1 links r, length links - 1, i)" and "r = i \<or> r = i + 1" for r
    proof -
      have len: "length (splice1 links r) = length links - 1"
        using that(2) lt by (auto simp: splice1_def)
      have "fst (sweep (sweep_body s)) =
            take i (splice1 links r) @ resolve_spec (drop i (splice1 links r))"
        using IH[of i] by (simp add: that(1) len)
      moreover have "take i (splice1 links r) = take i links"
        using that(2) lt by (auto simp: splice1_def min_def)
      ultimately show ?thesis unfolding sw by simp
    qed
    have da: "drop i (splice1 links (i + 1)) = a # rest"
      using lt t1 by (simp add: splice1_def rest_def)
    have db: "drop i (splice1 links i) = b # rest"
      using lt d1 by (simp add: splice1_def)
    show ?thesis
    proof (cases "start a \<le> start b \<and> end' a > start b")
      case False
      then have "sweep_body s = (links, length links, i + 1)"
        by (simp only: body if_False)
      from adv[OF this] show ?thesis using False by (auto simp: s d)
    next
      case conflict: True
      consider (contained) "end' b \<le> end' a"
        | (longer) "\<not> end' b \<le> end' a" "end' a - start a > end' b - start b"
        | (shorter) "\<not> end' b \<le> end' a" "end' a - start a < end' b - start b"
        | (tie) "\<not> end' b \<le> end' a" "end' a - start a = end' b - start b"
        by linarith
      then show ?thesis
      proof cases
        case contained
        then have "sweep_body s = (splice1 links (i + 1), length links - 1, i)"
          using conflict by (simp add: body choose_remove_def)
        from rem[OF this] da show ?thesis using conflict contained by (auto simp: s d)
      next
        case longer
        then have "sweep_body s = (splice1 links (i + 1), length links - 1, i)"
          using conflict by (simp add: body choose_remove_def)
        from rem[OF this] da show ?thesis using conflict longer by (auto simp: s d)
      next
        case shorter
        then have "sweep_body s = (splice1 links i, length links - 1, i)"
          using conflict by (simp add: body choose_remove_def)
        from rem[OF this] db show ?thesis using conflict shorter by (auto simp: s d)
      next
        case tie
        then have "sweep_body s = (links, length links, i + 1)"
          using conflict by (simp add: body choose_remove_def)
        from adv[OF this] show ?thesis using conflict tie by (auto simp: s d)
      qed
    qed
  qed
qed

lemma pruneOverlaps_resolve:
  "pruneOverlaps links = resolve_spec (sort_key sort_key_spec links)"
  using sweep_resolve[of "(sort_c links, length links, 0)" 0]
  by (simp add: pruneOverlaps_def sort_c_eq)

lemma set_resolve_spec: "set (resolve_spec xs) \<subseteq> set xs"
  by (induction xs rule: resolve_spec.induct) auto

lemma sorted_wrt_resolve_spec: "sorted_wrt P xs \<Longrightarrow> sorted_wrt P (resolve_spec xs)"
proof (induction xs rule: resolve_spec.induct)
  case (1 a b rest)
  have "P a y" if "y \<in> set (resolve_spec (b # rest))" for y
    using that set_resolve_spec[of "b # rest"] "1.prems" by auto
  with 1 show ?case by auto
qed simp_all

lemma sorted_key_start: "sorted (map sort_key_spec (a # xs)) \<Longrightarrow> y \<in> set xs \<Longrightarrow> start a \<le> start y"
  by (auto simp: sort_key_spec_def less_eq_prod_def)

lemma resolve_spec_disjoint:
  "sorted (map sort_key_spec xs) \<Longrightarrow> \<forall>a\<in>set xs. \<forall>b\<in>set xs. \<not> tied a b \<Longrightarrow>
   sorted_wrt (\<lambda>a b. end' a \<le> start b) (resolve_spec xs)"
proof (induction xs rule: resolve_spec.induct)
  case (1 a b rest)
  have sab: "start a \<le> start b" using "1.prems"(1) sorted_key_start[of a "b # rest" b] by simp
  have nt: "\<not> tied a b" using "1.prems"(2) by simp
  have s1: "sorted (map sort_key_spec (a # rest))" "sorted (map sort_key_spec (b # rest))"
    using "1.prems"(1) by auto
  have t1: "\<forall>x\<in>set (a # rest). \<forall>y\<in>set (a # rest). \<not> tied x y"
    "\<forall>x\<in>set (b # rest). \<forall>y\<in>set (b # rest). \<not> tied x y"
    using "1.prems"(2) by auto
  show ?case
  proof (cases "start a \<le> start b \<and> end' a > start b")
    case conflict: True
    consider (rb) "end' b \<le> end' a \<or> end' a - start a > end' b - start b"
      | (ra) "\<not> (end' b \<le> end' a \<or> end' a - start a > end' b - start b)" "end' a - start a < end' b - start b"
      using nt conflict unfolding tied_def by linarith
    then show ?thesis
    proof cases
      case rb
      then show ?thesis using conflict "1.IH"(1)[OF conflict rb s1(1) t1(1)] by auto
    next
      case ra
      then show ?thesis using conflict "1.IH"(2)[OF conflict ra(1) ra(2) s1(2) t1(2)] by auto
    qed
  next
    case False
    then have eb: "end' a \<le> start b" using sab by simp
    have "end' a \<le> start y" if "y \<in> set (resolve_spec (b # rest))" for y
    proof -
      have "y = b \<or> y \<in> set rest" using that set_resolve_spec[of "b # rest"] by auto
      then have "start b \<le> start y" using sorted_key_start[of b rest y] s1(2) by auto
      with eb show ?thesis by simp
    qed
    then show ?thesis using False "1.IH"(4)[OF False s1(2) t1(2)] by auto
  qed
qed simp_all

lemma resolve_spec_id: "sorted_wrt (\<lambda>a b. end' a \<le> start b) xs \<Longrightarrow> resolve_spec xs = xs"
  by (induction xs rule: resolve_spec.induct) auto

lemma pruneOverlaps_chain:
  assumes "\<forall>a\<in>set links. \<forall>b\<in>set links. \<not> tied a b"
  shows "sorted_wrt (\<lambda>a b. end' a \<le> start b) (pruneOverlaps links)"
  unfolding pruneOverlaps_resolve
  by (rule resolve_spec_disjoint) (use assms in simp_all)

lemma pruneOverlaps_sorted: "sorted (map sort_key_spec (pruneOverlaps links))"
proof -
  have "sorted (map sort_key_spec (sort_key sort_key_spec links))" by (rule sorted_sort_key)
  then have "sorted_wrt (\<lambda>a b. sort_key_spec a \<le> sort_key_spec b) (sort_key sort_key_spec links)"
    unfolding sorted_map .
  then have "sorted_wrt (\<lambda>a b. sort_key_spec a \<le> sort_key_spec b)
               (resolve_spec (sort_key sort_key_spec links))"
    by (rule sorted_wrt_resolve_spec)
  then show ?thesis unfolding pruneOverlaps_resolve sorted_map .
qed

lemma pruneOverlaps_fixed:
  assumes "sorted (map sort_key_spec xs)" "sorted_wrt (\<lambda>a b. end' a \<le> start b) xs"
  shows "pruneOverlaps xs = xs"
  by (simp add: pruneOverlaps_resolve sort_key_id_if_sorted assms resolve_spec_id)

lemma key_le_iff:
  "sort_key_spec a \<le> sort_key_spec b \<longleftrightarrow>
   start a < start b \<or> (start a = start b \<and> end' b \<le> end' a)"
  by (auto simp: sort_key_spec_def less_eq_prod_def)

lemma sort_c_sorted:
  "sorted_wrt (\<lambda>a b. start a < start b \<or> (start a = start b \<and> end' b \<le> end' a)) (sort_c links)"
proof -
  have "sorted (map sort_key_spec (sort_key sort_key_spec links))" by (rule sorted_sort_key)
  then have "sorted_wrt (\<lambda>a b. sort_key_spec a \<le> sort_key_spec b) (sort_c links)"
    unfolding sort_c_eq sorted_map .
  then show ?thesis unfolding key_le_iff .
qed

lemma sort_c_mset: "mset (sort_c links) = mset links"
  unfolding sort_c_eq by (rule mset_sort)


lemma sweep_body_step:
  assumes "i + 1 < length ls"
  shows "\<exists>ls' i'. sweep_body (ls, length ls, i) = (ls', length ls', i') \<and>
           ((length ls' + 1 = length ls \<and> i' = i) \<or> (ls' = ls \<and> i' = i + 1))"
proof -
  have "length (splice1 ls r) = length ls - 1" if "r = i \<or> r = i + 1" for r
    using that assms by (auto simp: splice1_def)
  then show ?thesis
    using assms
    by (auto simp: sweep_body_def Let_def choose_remove_def split: option.splits if_splits)
qed

lemma sweep_body_measure:
  assumes "sweep_cond (links, len, i)"
  shows "\<exists>links' len' i'. sweep_body (links, len, i) = (links', len', i') \<and>
           2 * len' - i' < 2 * len - i"
  using assms
  by (auto simp: sweep_cond_def sweep_body_def Let_def split: option.splits)

lemma sweep_fuel_enough:
  "2 * fst (snd s) - snd (snd s) \<le> n \<Longrightarrow> sweep_fuel n s = Some (sweep s)"
proof (induction n arbitrary: s)
  case 0
  obtain links len i where s: "s = (links, len, i)" by (cases s) auto
  from 0 have "\<not> sweep_cond s" by (auto simp: s sweep_cond_def)
  then show ?case by (simp add: sweep.simps)
next
  case (Suc n)
  obtain links len i where s: "s = (links, len, i)" by (cases s) auto
  show ?case
  proof (cases "sweep_cond s")
    case False
    then show ?thesis by (simp add: sweep.simps)
  next
    case True
    from sweep_body_measure[OF True[unfolded s]] obtain links' len' i' where
      b: "sweep_body s = (links', len', i')" and m: "2 * len' - i' < 2 * len - i"
      unfolding s by blast
    have "2 * fst (snd (sweep_body s)) - snd (snd (sweep_body s)) \<le> n"
      using m Suc.prems by (simp add: b[unfolded s] s)
    from Suc.IH[OF this] True show ?thesis by (simp add: sweep.simps[of s])
  qed
qed

lemma sweep_exit:
  "snd s = (length (fst s), i) \<Longrightarrow> i + 1 \<le> length (fst s) \<or> fst s = [] \<and> i = 0 \<Longrightarrow>
   \<exists>r j. sweep s = (r, length r, j) \<and> \<not> j + 1 < length r \<and> (fst s \<noteq> [] \<longrightarrow> j + 1 = length r)"
proof (induction s arbitrary: i rule: sweep.induct)
  case (1 s)
  obtain links where s: "s = (links, length links, i)"
    using "1.prems" by (cases s) auto
  show ?case
  proof (cases "sweep_cond s")
    case False
    then have "sweep s = s" by (simp add: sweep.simps)
    then show ?thesis using False "1.prems"(2) by (auto simp: s sweep_cond_def)
  next
    case True
    then have lt: "i + 1 < length links" by (simp add: s sweep_cond_def)
    from sweep_body_step[OF lt] obtain ls' i' where
      b: "sweep_body s = (ls', length ls', i')"
      and c: "(length ls' + 1 = length links \<and> i' = i) \<or> (ls' = links \<and> i' = i + 1)"
      unfolding s by blast
    have p1: "snd (sweep_body s) = (length (fst (sweep_body s)), i')" by (simp add: b)
    have p2: "i' + 1 \<le> length (fst (sweep_body s)) \<or> fst (sweep_body s) = [] \<and> i' = 0"
      using c lt by (auto simp: b)
    have ne: "fst (sweep_body s) \<noteq> []" using c lt by (auto simp: b)
    from "1.IH"[OF True p1 p2] ne obtain r j where
      "sweep (sweep_body s) = (r, length r, j)" "\<not> j + 1 < length r" "j + 1 = length r"
      by blast
    moreover have "sweep s = sweep (sweep_body s)" using True by (simp add: sweep.simps[of s])
    ultimately show ?thesis by simp
  qed
qed

section \<open>Facts about the orchestrator\<close>

lemma indexOf_ge: "- 1 \<le> indexOf s u"
  by (induction s) (auto simp: Let_def)

lemma indexOf_iff: "indexOf s u \<noteq> - 1 \<longleftrightarrow> u \<in> set s"
proof (induction s)
  case Nil
  show ?case by simp
next
  case (Cons x xs)
  have "indexOf xs u + 1 \<noteq> - 1" using indexOf_ge[of xs u] by linarith
  with Cons show ?case by (auto simp: Let_def)
qed

lemma containsUnsupportedCharacters_eq:
  "containsUnsupportedCharacters st text =
     (if 0x202C \<in> set text then
        (True, logError st ''Unsupported character for applying links: u202C'')
      else if 0x202D \<in> set text then
        (True, logError st ''Unsupported character for applying links: u202D'')
      else if 0x202E \<in> set text then
        (True, logError st ''Unsupported character for applying links: u202E'')
      else (False, st))"
  unfolding containsUnsupportedCharacters_def indexOf_iff ..

lemma containsUnsupportedCharacters_fst:
  "fst (containsUnsupportedCharacters st text) \<longleftrightarrow>
   0x202C \<in> set text \<or> 0x202D \<in> set text \<or> 0x202E \<in> set text"
  by (simp add: containsUnsupportedCharacters_eq)



lemma guard_stops_addAutoLinks:
  assumes "fst (containsUnsupportedCharacters st text)"
  shows "addAutoLinks P W E st text msk = (None, snd (containsUnsupportedCharacters st text))"
  using assms by (simp add: addAutoLinks_def Let_def)

lemma guard_stops_addLinks:
  assumes "fst (containsUnsupportedCharacters st sp)"
  shows "addLinks P st sp ex r d ss mf tf =
           Some (None, snd (containsUnsupportedCharacters st sp), r)"
  using assms by (simp add: addLinks_def Let_def)


lemma addLinks_loop_run:
  "exec_matches n ex r sp = Some (ms, r') \<Longrightarrow>
   addLinks_loop P sp sc mf tf ex r acc =
     Some (acc @ map (\<lambda>m. \<lparr>url = makeUrl P (matched m) sc m tf, start = int (index m),
                             end' = int (index m) + int (length (matched m))\<rparr>)
                   (filter (\<lambda>m. case mf of None \<Rightarrow> True
                                | Some f \<Rightarrow> f sp (int (index m))
                                             (int (index m) + int (length (matched m))))
                      ms),
           r')"
proof (induction n arbitrary: r ms acc)
  case 0
  then show ?case by simp
next
  case (Suc n)
  obtain mo r1 where e: "ex r sp = (mo, r1)" by (cases "ex r sp")
  show ?case
  proof (cases mo)
    case None
    with Suc.prems e have "ms = []" "r' = r1" by simp_all
    with None e show ?thesis by (subst addLinks_loop.simps) simp
  next
    case (Some m)
    with Suc.prems e obtain ms1 where
      run: "exec_matches n ex r1 sp = Some (ms1, r')" and ms: "ms = m # ms1"
      by (auto split: option.splits)
    note IH = Suc.IH[OF run]
    show ?thesis
      by (subst addLinks_loop.simps) (simp add: e Some ms IH Let_def)
  qed
qed


lemma addAutoLinks_fst_state:
  "fst (addAutoLinks P W E st' text msk) = fst (addAutoLinks P W E st text msk)"
proof -
  have "fst (containsUnsupportedCharacters st' text) = fst (containsUnsupportedCharacters st text)"
    by (simp add: containsUnsupportedCharacters_fst)
  then show ?thesis by (simp add: addAutoLinks_def Let_def)
qed

lemma addAutoLinks_Some:
  assumes "fst (addAutoLinks P W E st text msk) = Some r"
  shows "r = pruneOverlaps (gathered P W E text (case msk of None \<Rightarrow> ALL_KINDS | Some m \<Rightarrow> m))"
  using assms
  by (auto simp: addAutoLinks_def gathered_def Let_def split: if_splits)



section \<open>What pruneOverlaps computes\<close>

text \<open>
  C4. \<^verbatim>\<open>pruneOverlaps\<close> first sorts the list by \<^verbatim>\<open>start\<close> ascending, ties broken by \<^verbatim>\<open>end\<close>
  descending (the sorted list is a rearrangement of the input in which every earlier
  element has the smaller \<^verbatim>\<open>start\<close>, or the same \<^verbatim>\<open>start\<close> and no smaller \<^verbatim>\<open>end\<close>), and
  then treats adjacent pairs as \<open>resolve_spec\<close> does: of a conflicting pair \<open>a\<close>, \<open>b\<close> it
  removes \<open>b\<close> when \<open>b\<close> ends no later than \<open>a\<close> or \<open>a\<close> is strictly longer, removes \<open>a\<close> when
  \<open>b\<close> is strictly longer, and removes neither when both are equally long and neither
  contains the other.
\<close>

theorem pruneOverlaps_sort_then_resolve:
  "pruneOverlaps links = resolve_spec (sort_c links) \<and>
   mset (sort_c links) = mset links \<and>
   sorted_wrt (\<lambda>a b. start a < start b \<or> (start a = start b \<and> end' b \<le> end' a))
     (sort_c links)"
  using pruneOverlaps_resolve[of links] sort_c_eq[of links] sort_c_mset[of links]
    sort_c_sorted[of links]
  by (simp only: simp_thms)

theorem pruneOverlaps_sort_then_resolve_witness:
  "pruneOverlaps [\<lparr>url = js ''f'', start = 5, end' = 20\<rparr>, \<lparr>url = js ''a'', start = 0, end' = 10\<rparr>, \<lparr>url = js ''d'', start = 5, end' = 8\<rparr>] = [\<lparr>url = js ''f'', start = 5, end' = 20\<rparr>]"
  using pruneOverlaps_sort_then_resolve[of "[\<lparr>url = js ''f'', start = 5, end' = 20\<rparr>, \<lparr>url = js ''a'', start = 0, end' = 10\<rparr>, \<lparr>url = js ''d'', start = 5, end' = 8\<rparr>]"]
  by (simp add: sort_c_def c_def)

text \<open>
  C1, as the code has it. Two equally long annotations of which neither contains the
  other both survive, so the result may hold intersecting spans. When the list given to
  \<^verbatim>\<open>pruneOverlaps\<close> holds no such tied pair, no two annotations at different positions
  of the result intersect: one ends no later than the other starts. \<^verbatim>\<open>addAutoLinks\<close>
  returns what \<^verbatim>\<open>pruneOverlaps\<close> leaves of the gathered annotations, so the same holds for
  a list it returns when the gathered annotations hold no tied pair.
\<close>

theorem pruneOverlaps_disjoint_without_ties:
  "((\<forall>a\<in>set links. \<forall>b\<in>set links. \<not> tied a b) \<longrightarrow>
      (\<forall>i<length (pruneOverlaps links). \<forall>j<length (pruneOverlaps links). i \<noteq> j \<longrightarrow>
         end' (pruneOverlaps links ! i) \<le> start (pruneOverlaps links ! j) \<or>
         end' (pruneOverlaps links ! j) \<le> start (pruneOverlaps links ! i))) \<and>
   (fst (addAutoLinks P W E st text msk) = Some r \<and>
    (\<forall>a\<in>set (gathered P W E text (case msk of None \<Rightarrow> ALL_KINDS | Some m \<Rightarrow> m)).
     \<forall>b\<in>set (gathered P W E text (case msk of None \<Rightarrow> ALL_KINDS | Some m \<Rightarrow> m)). \<not> tied a b) \<longrightarrow>
      (\<forall>i<length r. \<forall>j<length r. i \<noteq> j \<longrightarrow>
         end' (r ! i) \<le> start (r ! j) \<or> end' (r ! j) \<le> start (r ! i)))"
proof -
  have main: "\<forall>i<length (pruneOverlaps xs). \<forall>j<length (pruneOverlaps xs). i \<noteq> j \<longrightarrow>
         end' (pruneOverlaps xs ! i) \<le> start (pruneOverlaps xs ! j) \<or>
         end' (pruneOverlaps xs ! j) \<le> start (pruneOverlaps xs ! i)"
    if nt: "\<forall>a\<in>set xs. \<forall>b\<in>set xs. \<not> tied a b" for xs
  proof (intro allI impI)
    fix i j
    assume ij: "i < length (pruneOverlaps xs)" "j < length (pruneOverlaps xs)" "i \<noteq> j"
    note ch = pruneOverlaps_chain[OF nt, unfolded sorted_wrt_iff_nth_less]
    from ij(3) consider "i < j" | "j < i" by linarith
    then show "end' (pruneOverlaps xs ! i) \<le> start (pruneOverlaps xs ! j) \<or>
       end' (pruneOverlaps xs ! j) \<le> start (pruneOverlaps xs ! i)"
      using ch ij by cases auto
  qed
  show ?thesis
  proof (intro conjI impI)
    assume "\<forall>a\<in>set links. \<forall>b\<in>set links. \<not> tied a b"
    then show "\<forall>i<length (pruneOverlaps links). \<forall>j<length (pruneOverlaps links). i \<noteq> j \<longrightarrow>
         end' (pruneOverlaps links ! i) \<le> start (pruneOverlaps links ! j) \<or>
         end' (pruneOverlaps links ! j) \<le> start (pruneOverlaps links ! i)"
      by (rule main)
  next
    let ?G = "gathered P W E text (case msk of None \<Rightarrow> ALL_KINDS | Some m \<Rightarrow> m)"
    assume a: "fst (addAutoLinks P W E st text msk) = Some r \<and>
      (\<forall>a\<in>set ?G. \<forall>b\<in>set ?G. \<not> tied a b)"
    then have r: "r = pruneOverlaps ?G" using addAutoLinks_Some by blast
    from a have "\<forall>a\<in>set ?G. \<forall>b\<in>set ?G. \<not> tied a b" by blast
    from main[OF this] show "\<forall>i<length r. \<forall>j<length r. i \<noteq> j \<longrightarrow>
         end' (r ! i) \<le> start (r ! j) \<or> end' (r ! j) \<le> start (r ! i)"
      unfolding r .
  qed
qed


theorem pruneOverlaps_disjoint_without_ties_witness:
  "pruneOverlaps [\<lparr>url = js ''e'', start = 20, end' = 30\<rparr>, \<lparr>url = js ''a'', start = 0, end' = 10\<rparr>, \<lparr>url = js ''d'', start = 5, end' = 8\<rparr>] = [\<lparr>url = js ''a'', start = 0, end' = 10\<rparr>, \<lparr>url = js ''e'', start = 20, end' = 30\<rparr>] \<and>
   (end' (pruneOverlaps [\<lparr>url = js ''e'', start = 20, end' = 30\<rparr>, \<lparr>url = js ''a'', start = 0, end' = 10\<rparr>, \<lparr>url = js ''d'', start = 5, end' = 8\<rparr>] ! 0) \<le> start (pruneOverlaps [\<lparr>url = js ''e'', start = 20, end' = 30\<rparr>, \<lparr>url = js ''a'', start = 0, end' = 10\<rparr>, \<lparr>url = js ''d'', start = 5, end' = 8\<rparr>] ! 1) \<or>
    end' (pruneOverlaps [\<lparr>url = js ''e'', start = 20, end' = 30\<rparr>, \<lparr>url = js ''a'', start = 0, end' = 10\<rparr>, \<lparr>url = js ''d'', start = 5, end' = 8\<rparr>] ! 1) \<le> start (pruneOverlaps [\<lparr>url = js ''e'', start = 20, end' = 30\<rparr>, \<lparr>url = js ''a'', start = 0, end' = 10\<rparr>, \<lparr>url = js ''d'', start = 5, end' = 8\<rparr>] ! 0)) \<and>
   fst (addAutoLinks sample_platform (\<lambda>s. [\<lparr>matched = js ''a.b'', index = 0\<rparr>])
          (\<lambda>s. [\<lparr>matched = js ''c@d.e'', index = 4\<rparr>]) \<lparr>handler_set = False, delivered = []\<rparr>
          (js ''a.b c@d.e'') None) =
     Some [\<lparr>url = js ''http://a.b'', start = 0, end' = 3\<rparr>,
           \<lparr>url = js ''mailto:c@d.e'', start = 4, end' = 9\<rparr>] \<and>
   (end' \<lparr>url = js ''http://a.b'', start = 0, end' = 3\<rparr>
      \<le> start \<lparr>url = js ''mailto:c@d.e'', start = 4, end' = 9\<rparr> \<or>
    end' \<lparr>url = js ''mailto:c@d.e'', start = 4, end' = 9\<rparr>
      \<le> start \<lparr>url = js ''http://a.b'', start = 0, end' = 3\<rparr>)"
proof -
  let ?W = "\<lambda>s::jsstring. [\<lparr>matched = js ''a.b'', index = 0\<rparr>]"
  let ?E = "\<lambda>s::jsstring. [\<lparr>matched = js ''c@d.e'', index = 4\<rparr>]"
  let ?st = "\<lparr>handler_set = False, delivered = []\<rparr>"
  let ?r = "[\<lparr>url = js ''http://a.b'', start = 0, end' = 3\<rparr>,
             \<lparr>url = js ''mailto:c@d.e'', start = 4, end' = 9\<rparr>]"
  have h: "\<forall>a\<in>set [\<lparr>url = js ''e'', start = 20, end' = 30\<rparr>, \<lparr>url = js ''a'', start = 0, end' = 10\<rparr>, \<lparr>url = js ''d'', start = 5, end' = 8\<rparr>]. \<forall>b\<in>set [\<lparr>url = js ''e'', start = 20, end' = 30\<rparr>, \<lparr>url = js ''a'', start = 0, end' = 10\<rparr>, \<lparr>url = js ''d'', start = 5, end' = 8\<rparr>]. \<not> tied a b"
    by (simp add: tied_def)
  have v: "pruneOverlaps [\<lparr>url = js ''e'', start = 20, end' = 30\<rparr>, \<lparr>url = js ''a'', start = 0, end' = 10\<rparr>, \<lparr>url = js ''d'', start = 5, end' = 8\<rparr>] = [\<lparr>url = js ''a'', start = 0, end' = 10\<rparr>, \<lparr>url = js ''e'', start = 20, end' = 30\<rparr>]"
    by (simp add: pruneOverlaps_resolve sort_key_spec_def)
  have g: "gathered sample_platform ?W ?E (js ''a.b c@d.e'') ALL_KINDS = ?r"
    by code_simp
  have res: "fst (addAutoLinks sample_platform ?W ?E ?st (js ''a.b c@d.e'') None) = Some ?r"
    by code_simp
  have h2: "\<forall>a\<in>set (gathered sample_platform ?W ?E (js ''a.b c@d.e'')
                       (case None of None \<Rightarrow> ALL_KINDS | Some m \<Rightarrow> m)).
            \<forall>b\<in>set (gathered sample_platform ?W ?E (js ''a.b c@d.e'')
                       (case None of None \<Rightarrow> ALL_KINDS | Some m \<Rightarrow> m)). \<not> tied a b"
    by (simp add: g tied_def)
  show ?thesis
    using pruneOverlaps_disjoint_without_ties[where ?links = "[\<lparr>url = js ''e'', start = 20, end' = 30\<rparr>, \<lparr>url = js ''a'', start = 0, end' = 10\<rparr>, \<lparr>url = js ''d'', start = 5, end' = 8\<rparr>]" and ?P = sample_platform
        and ?W = ?W and ?E = ?E and ?st = ?st and ?text = "js ''a.b c@d.e''"
        and ?msk = None and ?r = ?r] h v res h2
    by simp
qed

theorem pruneOverlaps_overlap_counterexample:
  "pruneOverlaps [\<lparr>url = js ''a'', start = 0, end' = 10\<rparr>, \<lparr>url = js ''b'', start = 5, end' = 15\<rparr>] = [\<lparr>url = js ''a'', start = 0, end' = 10\<rparr>, \<lparr>url = js ''b'', start = 5, end' = 15\<rparr>] \<and>
   \<lparr>url = js ''a'', start = 0, end' = 10\<rparr> \<noteq> \<lparr>url = js ''b'', start = 5, end' = 15\<rparr> \<and>
   \<not> (end' \<lparr>url = js ''a'', start = 0, end' = 10\<rparr> \<le> start \<lparr>url = js ''b'', start = 5, end' = 15\<rparr> \<or> end' \<lparr>url = js ''b'', start = 5, end' = 15\<rparr> \<le> start \<lparr>url = js ''a'', start = 0, end' = 10\<rparr>)"
  by (simp add: pruneOverlaps_resolve sort_key_spec_def js_def)

text \<open>
  C5, as the code has it. The sweep never looks back: once it has removed the first of a
  pair it does not compare the survivor with its new left neighbour, so a second run
  may still remove something. When the list given to \<^verbatim>\<open>pruneOverlaps\<close> holds no tied pair,
  a second run leaves the result of the first unchanged, elements and order.
\<close>

theorem pruneOverlaps_idempotent_without_ties:
  assumes "\<forall>a\<in>set links. \<forall>b\<in>set links. \<not> tied a b"
  shows "pruneOverlaps (pruneOverlaps links) = pruneOverlaps links"
proof -
  have ordered: "sorted (map sort_key_spec (pruneOverlaps links))"
    by (rule pruneOverlaps_sorted)
  have apart: "sorted_wrt (\<lambda>a b. end' a \<le> start b) (pruneOverlaps links)"
    using assms by (rule pruneOverlaps_chain)
  from ordered apart show ?thesis
    by (rule pruneOverlaps_fixed)
qed

theorem pruneOverlaps_idempotent_without_ties_witness:
  "pruneOverlaps [\<lparr>url = js ''c'', start = 6, end' = 30\<rparr>, \<lparr>url = js ''a'', start = 0, end' = 10\<rparr>, \<lparr>url = js ''d'', start = 5, end' = 8\<rparr>] = [\<lparr>url = js ''c'', start = 6, end' = 30\<rparr>] \<and>
   pruneOverlaps (pruneOverlaps [\<lparr>url = js ''c'', start = 6, end' = 30\<rparr>, \<lparr>url = js ''a'', start = 0, end' = 10\<rparr>, \<lparr>url = js ''d'', start = 5, end' = 8\<rparr>]) = pruneOverlaps [\<lparr>url = js ''c'', start = 6, end' = 30\<rparr>, \<lparr>url = js ''a'', start = 0, end' = 10\<rparr>, \<lparr>url = js ''d'', start = 5, end' = 8\<rparr>]"
proof -
  have h: "\<forall>a\<in>set [\<lparr>url = js ''c'', start = 6, end' = 30\<rparr>, \<lparr>url = js ''a'', start = 0, end' = 10\<rparr>, \<lparr>url = js ''d'', start = 5, end' = 8\<rparr>]. \<forall>b\<in>set [\<lparr>url = js ''c'', start = 6, end' = 30\<rparr>, \<lparr>url = js ''a'', start = 0, end' = 10\<rparr>, \<lparr>url = js ''d'', start = 5, end' = 8\<rparr>]. \<not> tied a b"
    by (simp add: tied_def)
  have v: "pruneOverlaps [\<lparr>url = js ''c'', start = 6, end' = 30\<rparr>, \<lparr>url = js ''a'', start = 0, end' = 10\<rparr>, \<lparr>url = js ''d'', start = 5, end' = 8\<rparr>] = [\<lparr>url = js ''c'', start = 6, end' = 30\<rparr>]"
    by (simp add: pruneOverlaps_resolve sort_key_spec_def)
  show ?thesis
    using pruneOverlaps_idempotent_without_ties[OF h] v by simp
qed

theorem pruneOverlaps_idempotent_counterexample:
  "pruneOverlaps [\<lparr>url = js ''a'', start = 0, end' = 10\<rparr>, \<lparr>url = js ''b'', start = 5, end' = 15\<rparr>, \<lparr>url = js ''c'', start = 6, end' = 30\<rparr>] = [\<lparr>url = js ''a'', start = 0, end' = 10\<rparr>, \<lparr>url = js ''c'', start = 6, end' = 30\<rparr>] \<and>
   pruneOverlaps (pruneOverlaps [\<lparr>url = js ''a'', start = 0, end' = 10\<rparr>, \<lparr>url = js ''b'', start = 5, end' = 15\<rparr>, \<lparr>url = js ''c'', start = 6, end' = 30\<rparr>]) = [\<lparr>url = js ''c'', start = 6, end' = 30\<rparr>] \<and>
   pruneOverlaps (pruneOverlaps [\<lparr>url = js ''a'', start = 0, end' = 10\<rparr>, \<lparr>url = js ''b'', start = 5, end' = 15\<rparr>, \<lparr>url = js ''c'', start = 6, end' = 30\<rparr>]) \<noteq> pruneOverlaps [\<lparr>url = js ''a'', start = 0, end' = 10\<rparr>, \<lparr>url = js ''b'', start = 5, end' = 15\<rparr>, \<lparr>url = js ''c'', start = 6, end' = 30\<rparr>]"
  by (simp add: pruneOverlaps_resolve sort_key_spec_def)

text \<open>
  C9. The sweep of \<^verbatim>\<open>pruneOverlaps\<close> ends on every list: within twice the length of the
  list many iterations the loop leaves with the pruned list, \<^verbatim>\<open>len\<close> its length and the
  index no longer below \<^verbatim>\<open>len - 1\<close> (equal to it unless the list is empty). Each iteration
  entered with \<^verbatim>\<open>i < len - 1\<close> either removes one element and keeps the index, or keeps
  the list and advances the index by one.
\<close>

theorem pruneOverlaps_terminates:
  "(\<exists>n\<le>2 * length links. \<exists>r i.
      sweep_fuel n (sort_c links, length links, 0) = Some (r, length r, i) \<and>
      r = pruneOverlaps links \<and> \<not> i + 1 < length r \<and> (links \<noteq> [] \<longrightarrow> i + 1 = length r)) \<and>
   (j + 1 < length ls \<longrightarrow>
      (\<exists>ls' j'. sweep_body (ls, length ls, j) = (ls', length ls', j') \<and>
         ((length ls' + 1 = length ls \<and> j' = j) \<or> (ls' = ls \<and> j' = j + 1))))"
proof -
  let ?s = "(sort_c links, length links, 0 :: nat)"
  have len: "length (sort_c links) = length links" by (simp add: sort_c_eq)
  have "\<exists>r j. sweep ?s = (r, length r, j) \<and> \<not> j + 1 < length r \<and>
      (fst ?s \<noteq> [] \<longrightarrow> j + 1 = length r)"
  proof (rule sweep_exit[of ?s 0])
    show "snd ?s = (length (fst ?s), 0)" by (simp add: len)
    show "0 + 1 \<le> length (fst ?s) \<or> fst ?s = [] \<and> (0::nat) = 0"
      by (cases "sort_c links") simp_all
  qed
  then obtain r i where r: "sweep ?s = (r, length r, i)" "\<not> i + 1 < length r"
    "sort_c links \<noteq> [] \<longrightarrow> i + 1 = length r" by auto
  have ne: "links \<noteq> [] \<longrightarrow> sort_c links \<noteq> []" using len by (metis length_0_conv)
  have "sweep_fuel (2 * length links) ?s = Some (sweep ?s)"
    by (rule sweep_fuel_enough) simp
  then have "sweep_fuel (2 * length links) ?s = Some (r, length r, i) \<and>
      r = pruneOverlaps links \<and> \<not> i + 1 < length r \<and> (links \<noteq> [] \<longrightarrow> i + 1 = length r)"
    using r ne by (auto simp: pruneOverlaps_def)
  then have A: "\<exists>n\<le>2 * length links. \<exists>r i.
      sweep_fuel n ?s = Some (r, length r, i) \<and>
      r = pruneOverlaps links \<and> \<not> i + 1 < length r \<and> (links \<noteq> [] \<longrightarrow> i + 1 = length r)"
    by blast
  show ?thesis using A sweep_body_step[of j ls] by blast
qed


theorem pruneOverlaps_terminates_witness:
  "sweep_fuel 2 (sort_c [\<lparr>url = js ''d'', start = 5, end' = 8\<rparr>, \<lparr>url = js ''a'', start = 0, end' = 10\<rparr>], 2, 0) = Some ([\<lparr>url = js ''a'', start = 0, end' = 10\<rparr>], 1, 0) \<and>
   pruneOverlaps [\<lparr>url = js ''d'', start = 5, end' = 8\<rparr>, \<lparr>url = js ''a'', start = 0, end' = 10\<rparr>] = [\<lparr>url = js ''a'', start = 0, end' = 10\<rparr>] \<and>
   sweep_body ([\<lparr>url = js ''a'', start = 0, end' = 10\<rparr>, \<lparr>url = js ''d'', start = 5, end' = 8\<rparr>], 2, 0) = ([\<lparr>url = js ''a'', start = 0, end' = 10\<rparr>], 1, 0)"
proof -
  have v: "sweep_fuel 2 (sort_c [\<lparr>url = js ''d'', start = 5, end' = 8\<rparr>, \<lparr>url = js ''a'', start = 0, end' = 10\<rparr>], 2, 0) = Some ([\<lparr>url = js ''a'', start = 0, end' = 10\<rparr>], 1, 0)"
    by code_simp
  have w: "sweep_body ([\<lparr>url = js ''a'', start = 0, end' = 10\<rparr>, \<lparr>url = js ''d'', start = 5, end' = 8\<rparr>], 2, 0) = ([\<lparr>url = js ''a'', start = 0, end' = 10\<rparr>], 1, 0)"
    by code_simp
  have p: "pruneOverlaps [\<lparr>url = js ''d'', start = 5, end' = 8\<rparr>, \<lparr>url = js ''a'', start = 0, end' = 10\<rparr>] = [\<lparr>url = js ''a'', start = 0, end' = 10\<rparr>]"
    by (simp add: pruneOverlaps_resolve sort_key_spec_def)
  show ?thesis
    using pruneOverlaps_terminates[of "[\<lparr>url = js ''d'', start = 5, end' = 8\<rparr>, \<lparr>url = js ''a'', start = 0, end' = 10\<rparr>]" 0 "[\<lparr>url = js ''a'', start = 0, end' = 10\<rparr>, \<lparr>url = js ''d'', start = 5, end' = 8\<rparr>]"] v w p by simp
qed

section \<open>Filters and canonical URLs\<close>

text \<open>
  C7. The web-URL match filter returns false exactly when \<^verbatim>\<open>start\<close> is positive and the
  code unit of the text at position \<^verbatim>\<open>start - 1\<close> is the at-sign (\<open>0x40\<close>); for every
  other text, \<^verbatim>\<open>start\<close> and \<^verbatim>\<open>end\<close>, also for \<^verbatim>\<open>start = 0\<close>, it returns true.
\<close>

theorem sUrlMatchFilter_rejects_after_at:
  "sUrlMatchFilter s sta en \<longleftrightarrow>
   \<not> (0 < sta \<and> sta \<le> int (length s) \<and> s ! nat (sta - 1) = 0x40)"
proof (cases "sta = 0")
  case True
  then show ?thesis by (simp add: sUrlMatchFilter_def)
next
  case False
  have "charAt s (sta - 1) = js ''@'' \<longleftrightarrow>
        0 < sta \<and> sta \<le> int (length s) \<and> s ! nat (sta - 1) = 0x40"
    by (auto simp: charAt_def js_def)
  with False show ?thesis by (simp add: sUrlMatchFilter_def)
qed

theorem sUrlMatchFilter_rejects_after_at_witness:
  "\<not> sUrlMatchFilter (js ''a@b.c'') 2 5 \<and> sUrlMatchFilter (js ''b.c'') 0 3 \<and>
   sUrlMatchFilter (js ''a b.c'') 2 5"
  using sUrlMatchFilter_rejects_after_at[of "js ''a@b.c''" 2 5] sUrlMatchFilter_rejects_after_at[of "js ''b.c''" 0 3] sUrlMatchFilter_rejects_after_at[of "js ''a b.c''" 2 5]
  by (simp add: js_def)




section \<open>The bidi guard and the results of the entry points\<close>

text \<open>
  C3, as the code has it. \<^verbatim>\<open>containsUnsupportedCharacters\<close> returns at the first of its
  three tests that finds something. For a text that holds one of the code points U+202C,
  U+202D, U+202E, \<^verbatim>\<open>addAutoLinks\<close> returns false whatever the patterns match, and
  \<^verbatim>\<open>logError\<close> is called exactly once, with the message for the first of U+202C, U+202D,
  U+202E, in this order, that the text holds: an installed handler receives this one
  message, and nothing is reported for the other code points of the text.
\<close>

theorem addAutoLinks_bidi_first_reported:
  assumes "0x202C \<in> set text \<or> 0x202D \<in> set text \<or> 0x202E \<in> set text"
  shows "fst (addAutoLinks P W E st text msk) = None \<and>
         snd (addAutoLinks P W E st text msk) =
           logError st
             (if 0x202C \<in> set text then ''Unsupported character for applying links: u202C''
              else if 0x202D \<in> set text then ''Unsupported character for applying links: u202D''
              else ''Unsupported character for applying links: u202E'') \<and>
         length (delivered (snd (addAutoLinks P W E st text msk))) =
           length (delivered st) + (if handler_set st then 1 else 0)"
proof -
  have "fst (containsUnsupportedCharacters st text)"
    using assms by (simp add: containsUnsupportedCharacters_fst)
  from guard_stops_addAutoLinks[OF this] show ?thesis
    using assms by (auto simp: containsUnsupportedCharacters_eq logError_def)
qed

theorem addAutoLinks_bidi_first_reported_witness:
  "addAutoLinks sample_platform (\<lambda>s. [\<lparr>matched = s, index = 0\<rparr>]) (\<lambda>s. [])
     \<lparr>handler_set = True, delivered = []\<rparr> [0x61, 0x202E, 0x62] None =
   (None, \<lparr>handler_set = True,
           delivered = [''Unsupported character for applying links: u202E'']\<rparr>)"
proof -
  have h: "0x202C \<in> set [0x61, 0x202E, 0x62 :: code_unit] \<or> 0x202D \<in> set [0x61, 0x202E, 0x62 :: code_unit]
      \<or> 0x202E \<in> set [0x61, 0x202E, 0x62 :: code_unit]" by simp
  show ?thesis
    using addAutoLinks_bidi_first_reported[OF h, where ?P = sample_platform
        and ?W = "\<lambda>s. [\<lparr>matched = s, index = 0\<rparr>]" and ?E = "\<lambda>s. []"
        and ?st = "\<lparr>handler_set = True, delivered = []\<rparr>" and ?msk = None]
    by (simp add: logError_def prod_eq_iff)
qed

theorem addAutoLinks_bidi_reports_counterexample:
  "0x202C \<in> set [0x202C, 0x202D :: code_unit] \<and> 0x202D \<in> set [0x202C, 0x202D :: code_unit] \<and>
   delivered (snd (addAutoLinks sample_platform (\<lambda>s. []) (\<lambda>s. [])
     \<lparr>handler_set = True, delivered = []\<rparr> [0x202C, 0x202D] None)) =
     [''Unsupported character for applying links: u202C'']"
  by (simp add: addAutoLinks_def containsUnsupportedCharacters_def logError_def)

text \<open>
  C2, as the code has it. \<^verbatim>\<open>addLinks\<close> begins with the same guard as \<^verbatim>\<open>addAutoLinks\<close>: for
  a text that holds one of U+202C, U+202D, U+202E it returns false without looking at
  the pattern, and leaves Diagnostics as \<^verbatim>\<open>addAutoLinks\<close> does on this text.
\<close>

theorem addLinks_bidi_guard:
  assumes "0x202C \<in> set spannable \<or> 0x202D \<in> set spannable \<or> 0x202E \<in> set spannable"
  shows "addLinks P st spannable ex r defaultScheme schemes matchFilter transformFilter =
           Some (None, snd (addAutoLinks P W E st spannable msk), r)"
proof -
  have "fst (containsUnsupportedCharacters st spannable)"
    using assms by (simp add: containsUnsupportedCharacters_fst)
  from guard_stops_addAutoLinks[OF this] guard_stops_addLinks[OF this] show ?thesis by simp
qed

theorem addLinks_bidi_guard_witness:
  "addLinks sample_platform \<lparr>handler_set = True, delivered = []\<rparr> [0x202D]
     (\<lambda>r s. if r then (None, False) else (Some \<lparr>matched = s, index = 0\<rparr>, True)) False
     None None None None =
   Some (None,
         \<lparr>handler_set = True,
            delivered = [''Unsupported character for applying links: u202D'']\<rparr>,
         False)"
proof -
  have h: "0x202C \<in> set [0x202D :: code_unit] \<or> 0x202D \<in> set [0x202D :: code_unit]
      \<or> 0x202E \<in> set [0x202D :: code_unit]" by simp
  have a: "snd (addAutoLinks sample_platform (\<lambda>s. []) (\<lambda>s. [])
                  \<lparr>handler_set = True, delivered = []\<rparr> [0x202D] None) =
      \<lparr>handler_set = True, delivered = [''Unsupported character for applying links: u202D'']\<rparr>"
    by (simp add: addAutoLinks_def containsUnsupportedCharacters_def logError_def)
  show ?thesis
    using addLinks_bidi_guard[OF h, where ?P = sample_platform
        and ?st = "\<lparr>handler_set = True, delivered = []\<rparr>"
        and ?ex = "\<lambda>r s. if r then (None, False) else (Some \<lparr>matched = s, index = 0\<rparr>, True)"
        and ?r = False and ?defaultScheme = None
        and ?schemes = None and ?matchFilter = None and ?transformFilter = None
        and ?W = "\<lambda>s. []" and ?E = "\<lambda>s. []" and ?msk = None] a
    by simp
qed

theorem addLinks_bidi_guard_counterexample:
  "addLinks_loop sample_platform [0x202C] [[]] None None
     (\<lambda>r s. if r then (None, False) else (Some \<lparr>matched = s, index = 0\<rparr>, True)) False [] =
     Some ([\<lparr>url = [0x202C], start = 0, end' = 1\<rparr>], False) \<and>
   addLinks sample_platform \<lparr>handler_set = False, delivered = []\<rparr> [0x202C]
     (\<lambda>r s. if r then (None, False) else (Some \<lparr>matched = s, index = 0\<rparr>, True)) False
     None None None None =
     Some (None, \<lparr>handler_set = False, delivered = []\<rparr>, False)"
proof -
  have run: "exec_matches (Suc (Suc 0))
      (\<lambda>r s. if r then (None, False) else (Some \<lparr>matched = s, index = 0\<rparr>, True)) False [0x202C] =
      Some ([\<lparr>matched = [0x202C], index = 0\<rparr>], False)"
    by simp
  have "addLinks_loop sample_platform [0x202C] [[]] None None
     (\<lambda>r s. if r then (None, False) else (Some \<lparr>matched = s, index = 0\<rparr>, True)) False [] =
     Some ([\<lparr>url = [0x202C], start = 0, end' = 1\<rparr>], False)"
    using addLinks_loop_run[OF run, of sample_platform "[[]]" None None "[]"]
    by (simp add: makeUrl_def sample_platform_def)
  then show ?thesis
    by (simp add: addLinks_def containsUnsupportedCharacters_def logError_def)
qed




text \<open>
  C8. The result of \<^verbatim>\<open>addAutoLinks\<close> for a text and a mask, with the same patterns, does
  not depend on the Diagnostics state it starts from: a second call, made in the state
  the first call leaves, returns what the first returned, the same sentinel or the same
  annotations in the same order.
\<close>

theorem addAutoLinks_deterministic:
  "fst (addAutoLinks P W E (snd (addAutoLinks P W E st text msk)) text msk) =
     fst (addAutoLinks P W E st text msk) \<and>
   fst (addAutoLinks P W E st' text msk) = fst (addAutoLinks P W E st text msk)"
  using addAutoLinks_fst_state[where ?P = P and ?W = W and ?E = E and ?text = "text"
      and ?msk = msk and ?st = st]
  by simp

theorem addAutoLinks_deterministic_witness:
  "fst (addAutoLinks sample_platform (\<lambda>s. [\<lparr>matched = s, index = 0\<rparr>]) (\<lambda>s. [])
          (snd (addAutoLinks sample_platform (\<lambda>s. [\<lparr>matched = s, index = 0\<rparr>]) (\<lambda>s. [])
                  \<lparr>handler_set = True, delivered = []\<rparr> (js ''a.b'') None))
          (js ''a.b'') None) =
   Some [\<lparr>url = js ''http://a.b'', start = 0, end' = 3\<rparr>]"
proof -
  have v: "fst (addAutoLinks sample_platform (\<lambda>s. [\<lparr>matched = s, index = 0\<rparr>]) (\<lambda>s. [])
          \<lparr>handler_set = True, delivered = []\<rparr> (js ''a.b'') None) =
      Some [\<lparr>url = js ''http://a.b'', start = 0, end' = 3\<rparr>]"
    by code_simp
  show ?thesis
    using addAutoLinks_deterministic[where ?P = sample_platform
        and ?W = "\<lambda>s. [\<lparr>matched = s, index = 0\<rparr>]" and ?E = "\<lambda>s. []"
        and ?st = "\<lparr>handler_set = True, delivered = []\<rparr>" and ?text = "js ''a.b''"
        and ?msk = None and ?st' = "\<lparr>handler_set = True, delivered = []\<rparr>"] v
    by simp
qed

end
